theory Spec2Isabelle
  imports Main "HOL-Library.Sublist"
begin

section \<open>Values of the Python runtime\<close>

text \<open>
  A \<open>bytes\<close> object is a list of 8-bit characters (\<open>b"READY"\<close> is \<open>''READY''\<close>); a
  \<open>str\<close> object is a list of Unicode code points. Integers are unbounded.
  The console is a working stream in strict UTF-8: \<open>print\<close> raises, a \<open>UnicodeEncodeError\<close>,
  on a text that holds a lone surrogate and on no other. Console output is left out where
  it cannot change what a run does: the per-chunk progress line is kept as an event, and
  the two messages of \<open>send_file\<close> that print the caller's path from an \<open>except\<close> clause
  are kept as the points of failure they are.
  Every blocking call is taken to complete: with data, with the end of the stream or with
  an exception. Exceptions outside \<open>Exception\<close> (a keyboard interrupt) are not modelled.
\<close>

type_synonym bytes = "char list"
type_synonym str = "nat list"

text \<open>The exception classes the two programs tell apart. \<open>ValueError\<close> stands for its
  subclasses \<open>UnicodeDecodeError\<close> and \<open>UnicodeEncodeError\<close> too, \<open>OSError\<close> for every
  other operating-system error.\<close>

datatype exn =
    ConnectionRefusedError
  | FileNotFoundError
  | PermissionError
  | ValueError
  | ZeroDivisionError
  | OSError

definition ascii :: "string \<Rightarrow> str" where
  "ascii s = map of_char s"

subsection \<open>Configuration constants (both files)\<close>

definition BUFFER_SIZE :: nat where
  "BUFFER_SIZE = 1024"

definition SEPARATOR :: str where
  "SEPARATOR = ascii ''<SEPARATOR>''"

definition READY :: str where
  "READY = ascii ''READY''"

definition SUCCESS :: str where
  "SUCCESS = ascii ''SUCCESS''"

definition FAILED :: str where
  "FAILED = ascii ''FAILED''"

subsection \<open>\<open>bytes.decode('utf-8')\<close> and \<open>str.encode('utf-8')\<close>\<close>

definition is_cont :: "nat \<Rightarrow> bool" where
  "is_cont b = (128 \<le> b \<and> b \<le> 191)"

text \<open>The strict decoder on byte values: shortest form only, no surrogates, nothing
  above U+10FFFF. \<open>None\<close> is \<open>UnicodeDecodeError\<close>.\<close>

fun utf8_dec :: "nat list \<Rightarrow> str option" where
  "utf8_dec [] = Some []"
| "utf8_dec (b # bs) =
     (if b < 128 then map_option ((#) b) (utf8_dec bs)
      else if 194 \<le> b \<and> b \<le> 223 then
        (case bs of
           c1 # r \<Rightarrow>
             if is_cont c1
             then map_option ((#) ((b - 192) * 64 + (c1 - 128))) (utf8_dec r)
             else None
         | _ \<Rightarrow> None)
      else if 224 \<le> b \<and> b \<le> 239 then
        (case bs of
           c1 # c2 # r \<Rightarrow>
             if (if b = 224 then 160 else 128) \<le> c1 \<and> c1 \<le> (if b = 237 then 159 else 191)
                \<and> is_cont c2
             then map_option ((#) ((b - 224) * 4096 + (c1 - 128) * 64 + (c2 - 128))) (utf8_dec r)
             else None
         | _ \<Rightarrow> None)
      else if 240 \<le> b \<and> b \<le> 244 then
        (case bs of
           c1 # c2 # c3 # r \<Rightarrow>
             if (if b = 240 then 144 else 128) \<le> c1 \<and> c1 \<le> (if b = 244 then 143 else 191)
                \<and> is_cont c2 \<and> is_cont c3
             then map_option
                    ((#) ((b - 240) * 262144 + (c1 - 128) * 4096 + (c2 - 128) * 64 + (c3 - 128)))
                    (utf8_dec r)
             else None
         | _ \<Rightarrow> None)
      else None)"

definition utf8_decode :: "bytes \<Rightarrow> str option" where
  "utf8_decode data = utf8_dec (map of_char data)"

text \<open>The encoder; \<open>None\<close> is \<open>UnicodeEncodeError\<close> (a lone surrogate).\<close>

definition utf8_enc1 :: "nat \<Rightarrow> nat list option" where
  "utf8_enc1 c =
     (if c < 128 then Some [c]
      else if c < 2048 then Some [192 + c div 64, 128 + c mod 64]
      else if c < 65536 then
        (if 55296 \<le> c \<and> c \<le> 57343 then None
         else Some [224 + c div 4096, 128 + c div 64 mod 64, 128 + c mod 64])
      else if c < 1114112 then
        Some [240 + c div 262144, 128 + c div 4096 mod 64, 128 + c div 64 mod 64, 128 + c mod 64]
      else None)"

fun utf8_enc :: "str \<Rightarrow> nat list option" where
  "utf8_enc [] = Some []"
| "utf8_enc (c # cs) =
     (case utf8_enc1 c of
        None \<Rightarrow> None
      | Some bs \<Rightarrow> map_option ((@) bs) (utf8_enc cs))"

definition utf8_encode :: "str \<Rightarrow> bytes option" where
  "utf8_encode s = map_option (map char_of) (utf8_enc s)"

subsection \<open>\<open>os.path.basename\<close> (POSIX flavour)\<close>

text \<open>\<open>posixpath.basename\<close> is \<open>p[p.rfind('/') + 1:]\<close>: what follows the last slash
  (code point 47), the whole of \<open>p\<close> when there is none.\<close>

definition basename :: "str \<Rightarrow> str" where
  "basename p = rev (takeWhile (\<lambda>c. c \<noteq> 47) (rev p))"

subsection \<open>\<open>str(n)\<close> and \<open>int(s)\<close>\<close>

function decimal :: "nat \<Rightarrow> str" where
  "decimal n = (if n < 10 then [48 + n] else decimal (n div 10) @ [48 + n mod 10])"
  by pat_completeness auto
termination
  by (relation "measure id") auto

declare decimal.simps [simp del]

text \<open>What \<open>int\<close> needs of the interpreter's Unicode database, which is no part of the
  repository: the white space and the decimal digits (with their values 0..9) among the
  code points from 127 on.\<close>

record unicode_db =
  uni_isspace :: "nat \<Rightarrow> bool"
  uni_todecimal :: "nat \<Rightarrow> nat option"

text \<open>\<open>int\<close> first maps white space and decimal digits outside ASCII to a blank and to
  ASCII digits; any other such code point becomes a question mark and ends the buffer.\<close>

fun to_ascii :: "unicode_db \<Rightarrow> str \<Rightarrow> str" where
  "to_ascii db [] = []"
| "to_ascii db (c # cs) =
     (if c < 127 then c # to_ascii db cs
      else if uni_isspace db c then 32 # to_ascii db cs
      else (case uni_todecimal db c of
              None \<Rightarrow> [63]
            | Some d \<Rightarrow> if d < 10 then (48 + d) # to_ascii db cs else [63]))"

definition is_space :: "nat \<Rightarrow> bool" where
  "is_space c = (c = 32 \<or> (9 \<le> c \<and> c \<le> 13))"

definition is_digit :: "nat \<Rightarrow> bool" where
  "is_digit c = (48 \<le> c \<and> c \<le> 57)"

fun no_double_underscore :: "str \<Rightarrow> bool" where
  "no_double_underscore (a # b # cs) = (\<not> (a = 95 \<and> b = 95) \<and> no_double_underscore (b # cs))"
| "no_double_underscore cs = True"

definition digits_value :: "str \<Rightarrow> int" where
  "digits_value ds = foldl (\<lambda>v c. 10 * v + int (c - 48)) 0 ds"

text \<open>\<open>int(s)\<close> in base 10: blanks, an optional sign, digits with single underscores
  between them, blanks, and nothing else. \<open>None\<close> is \<open>ValueError\<close>. (The interpreter's limit
  of 4300 digits is out of reach of a header of at most \<open>BUFFER_SIZE\<close> bytes.)\<close>

definition py_int :: "unicode_db \<Rightarrow> str \<Rightarrow> int option" where
  "py_int db s =
     (let a = to_ascii db s;
          b = dropWhile is_space a;
          negative = (b \<noteq> [] \<and> hd b = 45);
          c = (if b \<noteq> [] \<and> (hd b = 43 \<or> hd b = 45) then tl b else b);
          body = takeWhile (\<lambda>x. is_digit x \<or> x = 95) c;
          rest = dropWhile (\<lambda>x. is_digit x \<or> x = 95) c
      in if body = [] \<or> hd body = 95 \<or> last body = 95 \<or> \<not> no_double_underscore body
            \<or> dropWhile is_space rest \<noteq> []
         then None
         else Some ((if negative then - 1 else 1) * digits_value (filter is_digit body)))"

subsection \<open>\<open>str.split(sep)\<close>\<close>

text \<open>The fields between the occurrences of \<open>sep\<close>, found from the left without overlap.
  (\<open>split\<close> raises on an empty separator; \<open>SEPARATOR\<close> is not empty.)\<close>

function split_acc :: "str \<Rightarrow> str \<Rightarrow> str \<Rightarrow> str list" where
  "split_acc sep acc [] = [acc]"
| "split_acc sep acc (c # cs) =
     (if sep \<noteq> [] \<and> prefix sep (c # cs)
      then acc # split_acc sep [] (drop (length sep) (c # cs))
      else split_acc sep (acc @ [c]) cs)"
  by pat_completeness auto
termination
  by (relation "measure (\<lambda>(sep, acc, s). length s)") auto

definition split :: "str \<Rightarrow> str \<Rightarrow> str list" where
  "split sep s = split_acc sep [] s"

section \<open>Sockets, files and what a run does\<close>

text \<open>A run is observed through the calls it makes, in order: \<open>Send\<close> carries the buffer
  handed to \<open>socket.send\<close>, \<open>Recv\<close> the size asked of \<open>socket.recv\<close>, \<open>Write\<close> the chunk
  handed to \<open>file.write\<close>, \<open>Progress\<close> the two numbers of a progress line, \<open>Close\<close> is
  \<open>socket.close\<close>. A computation yields a value or an exception, and its calls.\<close>

datatype event =
    Connect
  | Send bytes
  | Recv nat
  | OpenRead
  | OpenWrite str
  | Write bytes
  | Progress int int
  | Close

type_synonym 'a io = "(exn + 'a) \<times> event list"

definition io_return :: "'a \<Rightarrow> 'a io" where
  "io_return x = (Inr x, [])"

definition io_raise :: "exn \<Rightarrow> 'a io" where
  "io_raise e = (Inl e, [])"

definition io_bind :: "'a io \<Rightarrow> ('a \<Rightarrow> 'b io) \<Rightarrow> 'b io" where
  "io_bind m f =
     (case m of
        (Inl e, tr) \<Rightarrow> (Inl e, tr)
      | (Inr x, tr) \<Rightarrow> (case f x of (r, tr') \<Rightarrow> (r, tr @ tr')))"

text \<open>The incoming half of a connection: what arrives, in arrival order, a segment of
  bytes or a failure of the call; after the last item the peer has closed, and \<open>recv\<close>
  returns \<open>b''\<close>. \<open>recv(n)\<close> takes at most \<open>n\<close> bytes of the first segment and leaves the
  rest of it for the next call.\<close>

datatype rx = Seg bytes | Raise exn

fun sock_recv :: "nat \<Rightarrow> rx list \<Rightarrow> (exn + bytes) \<times> rx list" where
  "sock_recv n [] = (Inr [], [])"
| "sock_recv n (Raise e # rest) = (Inl e, rest)"
| "sock_recv n (Seg s # rest) =
     (Inr (take n s), if drop n s = [] then rest else Seg (drop n s) # rest)"

definition recv :: "nat \<Rightarrow> rx list \<Rightarrow> (bytes \<times> rx list) io" where
  "recv bufsize chan =
     (case sock_recv bufsize chan of
        (Inl e, chan') \<Rightarrow> (Inl e, [Recv bufsize])
      | (Inr data, chan') \<Rightarrow> (Inr (data, chan'), [Recv bufsize]))"

text \<open>\<open>send\<close> hands the whole buffer to the connection or raises, as the environment says.\<close>

definition send :: "exn option \<Rightarrow> bytes \<Rightarrow> unit io" where
  "send outcome data =
     (case outcome of Some e \<Rightarrow> (Inl e, [Send data]) | None \<Rightarrow> (Inr (), [Send data]))"

definition decode :: "bytes \<Rightarrow> str io" where
  "decode data = (case utf8_decode data of None \<Rightarrow> io_raise ValueError | Some s \<Rightarrow> io_return s)"

definition encode :: "str \<Rightarrow> bytes io" where
  "encode s = (case utf8_encode s of None \<Rightarrow> io_raise ValueError | Some data \<Rightarrow> io_return data)"

text \<open>\<open>(part / whole) * 100\<close> and the progress line; the division raises on \<open>whole = 0\<close>.\<close>

definition progress :: "int \<Rightarrow> int \<Rightarrow> unit io" where
  "progress part whole =
     (if whole = 0 then io_raise ZeroDivisionError else (Inr (), [Progress part whole]))"

text \<open>What a trace says was sent, asked for and written.\<close>

fun sends :: "event list \<Rightarrow> bytes list" where
  "sends [] = []"
| "sends (Send d # tr) = d # sends tr"
| "sends (ev # tr) = sends tr"

fun recvs :: "event list \<Rightarrow> nat list" where
  "recvs [] = []"
| "recvs (Recv n # tr) = n # recvs tr"
| "recvs (ev # tr) = recvs tr"

fun writes :: "event list \<Rightarrow> bytes list" where
  "writes [] = []"
| "writes (Write d # tr) = d # writes tr"
| "writes (ev # tr) = writes tr"

fun progresses :: "event list \<Rightarrow> (int \<times> int) list" where
  "progresses [] = []"
| "progresses (Progress a b # tr) = (a, b) # progresses tr"
| "progresses (ev # tr) = progresses tr"

section \<open>The client: \<open>client.py\<close>\<close>

text \<open>The world of one \<open>send_file(filepath)\<close> call: what the file system answers for
  \<open>filepath\<close> at each of the calls that look at it, what \<open>socket.socket\<close>, \<open>connect\<close>, each
  \<open>send\<close> and \<open>close\<close> do, and what arrives from the server.\<close>

record client_env =
  isfile :: bool
  readable :: bool
  socket_result :: "exn option"
  connect_result :: "exn option"
  close_result :: "exn option"
  getsize_result :: "exn + nat"
  open_result :: "exn + bytes"
  header_send :: "exn option"
  chunk_sends :: "exn option list"
  from_server :: "rx list"

definition connect :: "exn option \<Rightarrow> unit io" where
  "connect outcome =
     (case outcome of Some e \<Rightarrow> (Inl e, [Connect]) | None \<Rightarrow> (Inr (), [Connect]))"

definition getsize :: "exn + nat \<Rightarrow> nat io" where
  "getsize outcome = (outcome, [])"

definition open_rb :: "exn + bytes \<Rightarrow> bytes io" where
  "open_rb outcome =
     (case outcome of Inl e \<Rightarrow> (Inl e, [OpenRead]) | Inr file \<Rightarrow> (Inr file, [OpenRead]))"

text \<open>Lines 74 to 88, the streaming loop: \<open>file\<close> is what is left to read, \<open>outcomes\<close> what
  the coming \<open>send\<close> calls do (none left: they succeed).\<close>

function stream_loop :: "nat \<Rightarrow> exn option list \<Rightarrow> bytes \<Rightarrow> nat \<Rightarrow> nat io" where
  "stream_loop filesize outcomes file bytes_sent =
     (let chunk = take BUFFER_SIZE file in
      if chunk = [] then io_return bytes_sent
      else
        io_bind (send (case outcomes of [] \<Rightarrow> None | r # rs \<Rightarrow> r) chunk) (\<lambda>u.
        io_bind (progress (int (bytes_sent + length chunk)) (int filesize)) (\<lambda>u.
        stream_loop filesize (tl outcomes) (drop BUFFER_SIZE file) (bytes_sent + length chunk))))"
  by pat_completeness auto
termination
  by (relation "measure (\<lambda>(filesize, outcomes, file, bytes_sent). length file)")
     (auto simp: BUFFER_SIZE_def)

declare stream_loop.simps [simp del]

text \<open>Lines 70 to 101: the file is opened and streamed, then the confirmation is read.\<close>

definition stream_file :: "client_env \<Rightarrow> nat \<Rightarrow> rx list \<Rightarrow> bool io" where
  "stream_file env filesize chan =
     io_bind (open_rb (open_result env)) (\<lambda>file.
     io_bind (stream_loop filesize (chunk_sends env) file 0) (\<lambda>bytes_sent.
     io_bind (recv BUFFER_SIZE chan) (\<lambda>(data, chan).
     io_bind (decode data) (\<lambda>confirmation.
     io_return (confirmation = SUCCESS)))))"

text \<open>Lines 44 to 101, the body of the \<open>try\<close>.\<close>

definition send_file_try :: "client_env \<Rightarrow> str \<Rightarrow> bool io" where
  "send_file_try env filepath =
     io_bind (connect (connect_result env)) (\<lambda>u.
     let filename = basename filepath in
     io_bind (getsize (getsize_result env)) (\<lambda>filesize.
     io_bind (encode (filename @ SEPARATOR @ decimal filesize)) (\<lambda>file_info.
     io_bind (send (header_send env) file_info) (\<lambda>u.
     io_bind (recv BUFFER_SIZE (from_server env)) (\<lambda>(data, chan).
     io_bind (decode data) (\<lambda>response.
     if response \<noteq> READY then io_return False
     else stream_file env filesize chan))))))"

text \<open>Inside the \<open>try\<close> a failing \<open>print\<close> is one more exception for the last \<open>except\<close>
  clause. The texts printed there are fixed, or numbers, or decoded from UTF-8, or the file
  name (lines 53 and 97); a file name the console cannot print cannot be encoded on line 59
  either, which raises at the same point of the trace with the same outcome. So the body
  above behaves as the source does on this console.\<close>

definition printable :: "str \<Rightarrow> bool" where
  "printable s = (utf8_encode s \<noteq> None)"

text \<open>Lines 103 to 115, the \<open>except\<close> clauses, applied to what the body did: a value it
  returned passes, an exception becomes \<open>False\<close>. The clauses for a missing and for an
  unreadable file print \<open>filepath\<close> first (lines 108 and 111); an exception raised there
  is not offered to the clauses beside, it goes on to the caller. The other clauses print
  fixed text or the text of the exception.\<close>

definition except_clauses :: "str \<Rightarrow> exn + bool \<Rightarrow> exn + bool" where
  "except_clauses filepath outcome =
     (case outcome of
        Inr result \<Rightarrow> Inr result
      | Inl ConnectionRefusedError \<Rightarrow> Inr False
      | Inl FileNotFoundError \<Rightarrow> if printable filepath then Inr False else Inl ValueError
      | Inl PermissionError \<Rightarrow> if printable filepath then Inr False else Inl ValueError
      | Inl e \<Rightarrow> Inr False)"

text \<open>\<open>send_file\<close>. Line 41 creates the socket before the \<open>try\<close>: an exception there
  reaches the caller, and there is no socket to close. The \<open>finally\<close> clause (lines 116 to
  119) closes the socket on every way out of the \<open>try\<close> and of its \<open>except\<close> clauses; an
  exception of \<open>close\<close> takes the place of the value or exception on its way out. \<open>Inl\<close> is
  an exception that reaches the caller.\<close>

definition send_file :: "client_env \<Rightarrow> str \<Rightarrow> (exn + bool) \<times> event list" where
  "send_file env filepath =
     (case socket_result env of
        Some e \<Rightarrow> (Inl e, [])
      | None \<Rightarrow>
          (case send_file_try env filepath of
             (outcome, tr) \<Rightarrow>
               (case close_result env of
                  Some e \<Rightarrow> (Inl e, tr @ [Close])
                | None \<Rightarrow> (except_clauses filepath outcome, tr @ [Close]))))"

text \<open>Lines 153 to 173 of \<open>main\<close>: one turn of the prompt loop, from the path the input
  was trimmed to. The path was read from the console, so the console prints it.\<close>

datatype report = FileNotFoundMsg | CannotReadMsg | TransferComplete | TransferFailed

definition main_iteration :: "client_env \<Rightarrow> str \<Rightarrow> (exn + report) \<times> event list" where
  "main_iteration env filepath =
     (if \<not> isfile env then (Inr FileNotFoundMsg, [])
      else if \<not> readable env then (Inr CannotReadMsg, [])
      else
        (case send_file env filepath of
           (Inl e, tr) \<Rightarrow> (Inl e, tr)
         | (Inr success, tr) \<Rightarrow> (Inr (if success then TransferComplete else TransferFailed), tr)))"

section \<open>The server: \<open>server.py\<close>\<close>

text \<open>The world of one accepted connection: what arrives from the client, what the two
  \<open>send\<close> calls and \<open>open(filename, 'wb')\<close> do, and the Unicode tables of the interpreter.
  Writing to the opened file succeeds.\<close>

record server_env =
  unicode :: unicode_db
  from_client :: "rx list"
  ready_send :: "exn option"
  create_result :: "exn option"
  confirm_send :: "exn option"

definition open_wb :: "exn option \<Rightarrow> str \<Rightarrow> unit io" where
  "open_wb outcome filename =
     (case outcome of
        Some e \<Rightarrow> (Inl e, [OpenWrite filename])
      | None \<Rightarrow> (Inr (), [OpenWrite filename]))"

definition file_write :: "bytes \<Rightarrow> unit io" where
  "file_write chunk = (Inr (), [Write chunk])"

text \<open>Lines 70 to 74: the two fields of the header, the name cut down to its last
  component and the size converted. Both the unpacking of a list that has not exactly two
  items and \<open>int\<close> raise \<open>ValueError\<close>.\<close>

definition file_info :: "unicode_db \<Rightarrow> str \<Rightarrow> exn + (str \<times> int)" where
  "file_info db received_data =
     (case split SEPARATOR received_data of
        [filename, filesize] \<Rightarrow>
          (case py_int db filesize of
             None \<Rightarrow> Inl ValueError
           | Some n \<Rightarrow> Inr (basename filename, n))
      | parts \<Rightarrow> Inl ValueError)"

definition lift :: "exn + 'a \<Rightarrow> 'a io" where
  "lift r = (r, [])"

text \<open>Lines 88 to 106, the body-read loop.\<close>

function recv_loop :: "int \<Rightarrow> int \<Rightarrow> rx list \<Rightarrow> int io" where
  "recv_loop filesize bytes_received chan =
     (if bytes_received < filesize then
        let bytes_remaining = filesize - bytes_received in
        io_bind (recv (nat (min (int BUFFER_SIZE) bytes_remaining)) chan) (\<lambda>(chunk, chan').
        if chunk = [] then io_return bytes_received
        else
          io_bind (file_write chunk) (\<lambda>u.
          io_bind (progress (bytes_received + int (length chunk)) filesize) (\<lambda>u.
          recv_loop filesize (bytes_received + int (length chunk)) chan')))
      else io_return bytes_received)"
  by pat_completeness auto
termination
  by (relation "measure (\<lambda>(filesize, bytes_received, chan). nat (filesize - bytes_received))")
     auto

declare recv_loop.simps [simp del]

text \<open>Lines 80 to 120: the go-ahead, the output file, the body and the verdict.\<close>

definition receive_file :: "server_env \<Rightarrow> str \<Rightarrow> int \<Rightarrow> rx list \<Rightarrow> unit io" where
  "receive_file env filename filesize chan =
     io_bind (send (ready_send env) ''READY'') (\<lambda>u.
     io_bind (open_wb (create_result env) filename) (\<lambda>u.
     io_bind (recv_loop filesize 0 chan) (\<lambda>bytes_received.
     if bytes_received = filesize then send (confirm_send env) ''SUCCESS''
     else send (confirm_send env) ''FAILED'')))"

text \<open>Lines 58 to 120 of \<open>start_server\<close>, the body of the inner \<open>try\<close>. An empty first read
  closes the socket and goes on to the next connection.\<close>

definition serve_try :: "server_env \<Rightarrow> unit io" where
  "serve_try env =
     io_bind (recv BUFFER_SIZE (from_client env)) (\<lambda>(data, chan).
     io_bind (decode data) (\<lambda>received_data.
     if received_data = [] then (Inr (), [Close])
     else
       io_bind (lift (file_info (unicode env) received_data)) (\<lambda>(filename, filesize).
       receive_file env filename filesize chan)))"

text \<open>One turn of the accept loop: both \<open>except\<close> clauses swallow the exception (it is
  returned here for reference), and the \<open>finally\<close> clause closes the socket.\<close>

definition serve_connection :: "server_env \<Rightarrow> exn option \<times> event list" where
  "serve_connection env =
     (case serve_try env of
        (Inl e, tr) \<Rightarrow> (Some e, tr @ [Close])
      | (Inr u, tr) \<Rightarrow> (None, tr @ [Close]))"

text \<open>The output file after the turn: its name and content, if \<open>open\<close> was reached.\<close>

fun output_name :: "event list \<Rightarrow> str option" where
  "output_name [] = None"
| "output_name (OpenWrite name # tr) = Some name"
| "output_name (ev # tr) = output_name tr"

definition output_file :: "event list \<Rightarrow> (str \<times> bytes) option" where
  "output_file tr = map_option (\<lambda>name. (name, concat (writes tr))) (output_name tr)"

section \<open>Vocabulary of the claims\<close>

text \<open>What a stream delivers before it first fails, reads empty or ends, and how it ends
  then: \<open>None\<close> for an empty read, \<open>Some e\<close> for a failing one.\<close>

fun available :: "rx list \<Rightarrow> bytes" where
  "available [] = []"
| "available (Raise e # rest) = []"
| "available (Seg s # rest) = (if s = [] then [] else s @ available rest)"

fun ending :: "rx list \<Rightarrow> exn option" where
  "ending [] = None"
| "ending (Raise e # rest) = Some e"
| "ending (Seg s # rest) = (if s = [] then None else ending rest)"

text \<open>The byte-count invariant, read off a trace of the body loop from \<open>bytes_received = b\<close>
  on: every read is made below the announced size and asks for
  \<open>min(BUFFER_SIZE, filesize - bytes_received)\<close> bytes, and no write takes the count past
  the announced size.\<close>

fun within_size :: "int \<Rightarrow> int \<Rightarrow> event list \<Rightarrow> bool" where
  "within_size fs b [] = True"
| "within_size fs b (Recv n # tr) =
     (b < fs \<and> int n = min (int BUFFER_SIZE) (fs - b) \<and> within_size fs b tr)"
| "within_size fs b (Write c # tr) =
     (b + int (length c) \<le> fs \<and> within_size fs (b + int (length c)) tr)"
| "within_size fs b (ev # tr) = within_size fs b tr"

text \<open>What the server makes of its first read (lines 60 to 74): the name it will open,
  the size it will wait for and the rest of the stream, when the header is accepted.\<close>

definition accepted_header :: "server_env \<Rightarrow> (str \<times> int \<times> rx list) option" where
  "accepted_header env =
     (case sock_recv BUFFER_SIZE (from_client env) of
        (Inl e, chan) \<Rightarrow> None
      | (Inr data, chan) \<Rightarrow>
          (case utf8_decode data of
             None \<Rightarrow> None
           | Some received_data \<Rightarrow>
               (case file_info (unicode env) received_data of
                  Inl e \<Rightarrow> None
                | Inr (filename, filesize) \<Rightarrow> Some (filename, filesize, chan))))"

text \<open>A valid non-negative decimal integer, in the words of the specification: one digit
  or more, and nothing else.\<close>

definition nonneg_decimal :: "str \<Rightarrow> bool" where
  "nonneg_decimal s = (s \<noteq> [] \<and> list_all is_digit s)"

text \<open>A reliable stream between one \<open>send_file\<close> call and one turn of the server. No call
  on a socket or on the output file fails. Each message the server sends reaches the
  client as a segment of its own. The first message of the client is the first segment
  the server sees; what the client sends after it arrives as the same bytes in the same
  order, cut into segments in any way, none empty, and the stream ends there.\<close>

definition data_only :: "rx list \<Rightarrow> bool" where
  "data_only chan = list_all (\<lambda>x. case x of Seg s \<Rightarrow> s \<noteq> [] | Raise e \<Rightarrow> False) chan"


section \<open>Example runs\<close>

text \<open>An interpreter whose Unicode tables are empty beyond ASCII; the examples use ASCII
  headers only.\<close>

definition ascii_db :: unicode_db where
  "ascii_db = \<lparr>uni_isspace = (\<lambda>c. False), uni_todecimal = (\<lambda>c. None)\<rparr>"

text \<open>A client announces three bytes under a name that climbs out of the directory.\<close>

definition env_climbing :: server_env where
  "env_climbing =
     \<lparr>unicode = ascii_db,
      from_client = [Seg ''../../etc/passwd<SEPARATOR>3'', Seg ''abc''],
      ready_send = None, create_result = None, confirm_send = None\<rparr>"

text \<open>A server that answers the header with something else than the go-ahead.\<close>

definition env_busy :: client_env where
  "env_busy =
     \<lparr>isfile = True, readable = True, socket_result = None, connect_result = None,
      close_result = None, getsize_result = Inr 3, open_result = Inr ''abc'',
      header_send = None, chunk_sends = [], from_server = [Seg ''BUSY'']\<rparr>"

text \<open>A path that names nothing, and a file that exists but may not be read; the server
  is up and answers.\<close>

definition env_missing :: client_env where
  "env_missing =
     \<lparr>isfile = False, readable = False, socket_result = None, connect_result = None,
      close_result = None, getsize_result = Inl FileNotFoundError,
      open_result = Inl FileNotFoundError, header_send = None, chunk_sends = [],
      from_server = [Seg ''READY'']\<rparr>"

definition env_unreadable :: client_env where
  "env_unreadable =
     \<lparr>isfile = True, readable = False, socket_result = None, connect_result = None,
      close_result = None, getsize_result = Inr 3, open_result = Inl PermissionError,
      header_send = None, chunk_sends = [], from_server = [Seg ''READY'']\<rparr>"

text \<open>A system that has no descriptor left for a socket; a socket whose \<open>close\<close> fails; a
  connection that is reset under the first chunk.\<close>

definition env_no_socket :: client_env where
  "env_no_socket = env_busy\<lparr>socket_result := Some OSError\<rparr>"

definition env_close_fails :: client_env where
  "env_close_fails = env_busy\<lparr>close_result := Some OSError\<rparr>"

definition env_reset :: client_env where
  "env_reset =
     \<lparr>isfile = True, readable = True, socket_result = None, connect_result = None,
      close_result = None, getsize_result = Inr 3, open_result = Inr ''abc'',
      header_send = None, chunk_sends = [Some OSError], from_server = [Seg ''READY'']\<rparr>"

text \<open>A client announces ten bytes, sends three and closes; another announces five
  bytes and sends seven of them in two segments.\<close>

definition env_cut_short :: server_env where
  "env_cut_short =
     \<lparr>unicode = ascii_db,
      from_client = [Seg ''f.bin<SEPARATOR>10'', Seg ''abc''],
      ready_send = None, create_result = None, confirm_send = None\<rparr>"

definition two_segments :: "rx list" where
  "two_segments = [Seg ''ab'', Seg ''cdefg'']"

text \<open>A client announces a negative size; another sends a header that is no UTF-8.\<close>

definition env_negative :: server_env where
  "env_negative =
     \<lparr>unicode = ascii_db,
      from_client = [Seg ''f<SEPARATOR>-5''],
      ready_send = None, create_result = None, confirm_send = None\<rparr>"

definition env_not_utf8 :: server_env where
  "env_not_utf8 =
     \<lparr>unicode = ascii_db,
      from_client = [Seg (CHR 0xFF # ''<SEPARATOR>5'')],
      ready_send = None, create_result = None, confirm_send = None\<rparr>"





section \<open>Properties\<close>

subsection \<open>Sequencing\<close>

lemma fst_io_bind:
  "fst (io_bind m f) = (case fst m of Inl e \<Rightarrow> Inl e | Inr x \<Rightarrow> fst (f x))"
  by (cases m) (auto simp: io_bind_def split: sum.splits prod.splits)

lemma snd_io_bind:
  "snd (io_bind m f) = (case fst m of Inl e \<Rightarrow> snd m | Inr x \<Rightarrow> snd m @ snd (f x))"
  by (cases m) (auto simp: io_bind_def split: sum.splits prod.splits)

lemma io_bind_Inl [simp]: "io_bind (Inl e, tr) f = (Inl e, tr)"
  by (simp add: io_bind_def)

lemma io_bind_Inr [simp]: "io_bind (Inr x, tr) f = (fst (f x), tr @ snd (f x))"
  by (simp add: io_bind_def split: prod.splits)

lemma in_io_bindE:
  assumes "ev \<in> set (snd (io_bind m f))"
  obtains "ev \<in> set (snd m)" | x where "fst m = Inr x" and "ev \<in> set (snd (f x))"
  using assms by (auto simp: snd_io_bind split: sum.splits)

lemmas io_defs = io_return_def io_raise_def recv_def send_def decode_def encode_def progress_def
  connect_def getsize_def open_rb_def open_wb_def file_write_def lift_def

subsection \<open>Which calls each phase can make\<close>

lemma recv_loop_events:
  "ev \<in> set (snd (recv_loop filesize b chan)) \<Longrightarrow>
     (\<exists>n. ev = Recv n) \<or> (\<exists>c. ev = Write c) \<or> (\<exists>x y. ev = Progress x y)"
proof (induction filesize b chan rule: recv_loop.induct)
  case (1 filesize bytes_received chan)
  from "1.prems" show ?case
    apply (subst (asm) recv_loop.simps)
    using "1.IH"
    apply (auto simp: Let_def io_defs split: prod.splits sum.splits if_splits)
    done
qed

lemma stream_loop_events:
  "ev \<in> set (snd (stream_loop filesize outs content b)) \<Longrightarrow>
     (\<exists>c. ev = Send c) \<or> (\<exists>x y. ev = Progress x y)"
proof (induction filesize outs content b rule: stream_loop.induct)
  case (1 filesize outcomes content bytes_sent)
  from "1.prems" show ?case
    apply (subst (asm) stream_loop.simps)
    using "1.IH"
    apply (auto simp: Let_def io_defs split: prod.splits sum.splits if_splits option.splits list.splits)
    done
qed

lemma receive_file_open:
  "OpenWrite n \<in> set (snd (receive_file env filename filesize chan)) \<Longrightarrow> n = filename"
  unfolding receive_file_def
  by (auto elim!: in_io_bindE simp: io_defs split: option.splits if_splits dest: recv_loop_events)

lemma serve_open_name:
  assumes "OpenWrite n \<in> set (snd (serve_connection env))"
  shows "\<exists>data chan received amount. sock_recv BUFFER_SIZE (from_client env) = (Inr data, chan)
           \<and> utf8_decode data = Some received
           \<and> file_info (unicode env) received = Inr (n, amount)"
proof -
  from assms have "OpenWrite n \<in> set (snd (serve_try env))"
    by (auto simp: serve_connection_def split: prod.splits sum.splits)
  then show ?thesis
    unfolding serve_try_def
    by (auto elim!: in_io_bindE simp: io_defs split: prod.splits sum.splits option.splits if_splits
        dest: receive_file_open)
qed

lemma stream_file_no_close: "Close \<notin> set (snd (stream_file env filesize chan))"
  unfolding stream_file_def
  by (auto elim!: in_io_bindE simp: io_defs split: prod.splits sum.splits option.splits if_splits
        dest: stream_loop_events)

lemma send_file_try_no_close: "Close \<notin> set (snd (send_file_try env p))"
  unfolding send_file_try_def Let_def
  using stream_file_no_close
  by (auto elim!: in_io_bindE simp: io_defs split: prod.splits sum.splits option.splits if_splits)

subsection \<open>Path components\<close>

lemma basename_no_slash: "47 \<notin> set (basename p)"
  by (auto simp: basename_def dest: set_takeWhileD)

lemma basename_suffix: "\<exists>pre. p = pre @ basename p \<and> (pre = [] \<or> last pre = 47)"
proof -
  have "rev p = takeWhile (\<lambda>c. c \<noteq> 47) (rev p) @ dropWhile (\<lambda>c. c \<noteq> 47) (rev p)"
    by simp
  then have "p = rev (dropWhile (\<lambda>c. c \<noteq> 47) (rev p)) @ basename p"
    unfolding basename_def by (metis rev_append rev_rev_ident)
  moreover have "dropWhile (\<lambda>c. c \<noteq> 47) (rev p) = []
      \<or> hd (dropWhile (\<lambda>c. c \<noteq> 47) (rev p)) = 47"
    using hd_dropWhile[of "\<lambda>c. c \<noteq> 47" "rev p"] by auto
  ultimately show ?thesis
    by (metis last_rev rev_is_Nil_conv)
qed

lemma file_info_name:
  assumes "file_info db received = Inr (name, amount)"
  shows "\<exists>filename filesize. split SEPARATOR received = [filename, filesize]
           \<and> name = basename filename \<and> py_int db filesize = Some amount"
  using assms
  by (auto simp: file_info_def split: list.splits option.splits)

subsection \<open>The streaming loop\<close>

lemma ceil_div_step:
  assumes "0 < c" "0 < (L::nat)"
  shows "Suc ((L - c + c - 1) div c) = (L + c - 1) div c"
proof -
  have a: "L + c - 1 = (L - 1) + c" using assms by simp
  have r: "(L + c - 1) div c = Suc ((L - 1) div c)"
    unfolding a using assms(1) div_add_self2[of c "L - 1"] by simp
  show ?thesis
  proof (cases "c \<le> L")
    case True
    then have "L - c + c - 1 = L - 1" by simp
    then show ?thesis using r by simp
  next
    case False
    then have "L - c + c - 1 = c - 1" "(L - 1) div c = 0" using assms by simp_all
    then show ?thesis using r assms by simp
  qed
qed

lemma mod_drop: "c < (L::nat) \<Longrightarrow> (L - c) mod c = L mod c"
  by (simp add: le_mod_geq)

lemma BUFFER_SIZE_pos: "0 < BUFFER_SIZE"
  by (simp add: BUFFER_SIZE_def)

lemma stream_loop_Nil: "stream_loop fs outs [] b = (Inr b, [])"
  by (subst stream_loop.simps) (simp add: io_return_def)

lemma stream_loop_step:
  assumes "content \<noteq> []" "fs \<noteq> 0" "set outs \<subseteq> {None}"
  shows "stream_loop fs outs content b =
     (fst (stream_loop fs (tl outs) (drop BUFFER_SIZE content) (b + length (take BUFFER_SIZE content))),
      Send (take BUFFER_SIZE content) # Progress (int (b + length (take BUFFER_SIZE content))) (int fs)
        # snd (stream_loop fs (tl outs) (drop BUFFER_SIZE content) (b + length (take BUFFER_SIZE content))))"
proof -
  have o: "(case outs of [] \<Rightarrow> None | r # rs \<Rightarrow> r) = None"
    using assms(3) by (cases outs) auto
  have t: "take BUFFER_SIZE content \<noteq> []"
    using assms(1) by (simp add: BUFFER_SIZE_def)
  show ?thesis
    using t by (subst stream_loop.simps) (simp add: Let_def o assms(2) send_def progress_def del: take_eq_Nil)
qed

lemma tl_outs: "set outs \<subseteq> {None} \<Longrightarrow> set (tl outs) \<subseteq> {None}"
  by (cases outs) auto

lemma stream_loop_result:
  assumes "fs \<noteq> 0" "set outs \<subseteq> {None}"
  shows "fst (stream_loop fs outs content b) = Inr (b + length content)"
  using assms
proof (induction content arbitrary: outs b rule: length_induct)
  case (1 content)
  show ?case
  proof (cases "content = []")
    case True
    then show ?thesis by (simp add: stream_loop_Nil)
  next
    case False
    have "length (drop BUFFER_SIZE content) < length content"
      using False by (simp add: BUFFER_SIZE_def)
    with 1 have "fst (stream_loop fs (tl outs) (drop BUFFER_SIZE content) (b + length (take BUFFER_SIZE content)))
        = Inr (b + length (take BUFFER_SIZE content) + length (drop BUFFER_SIZE content))"
      using tl_outs by blast
    then show ?thesis
      using False 1 by (simp add: stream_loop_step)
  qed
qed

lemma stream_loop_sends:
  assumes "fs \<noteq> 0" "set outs \<subseteq> {None}"
  shows "concat (sends (snd (stream_loop fs outs content b))) = content
     \<and> length (sends (snd (stream_loop fs outs content b))) = (length content + BUFFER_SIZE - 1) div BUFFER_SIZE
     \<and> (\<forall>c\<in>set (sends (snd (stream_loop fs outs content b))). c \<noteq> [] \<and> length c \<le> BUFFER_SIZE)
     \<and> (content \<noteq> [] \<longrightarrow> length (last (sends (snd (stream_loop fs outs content b))))
           = (if length content mod BUFFER_SIZE = 0 then BUFFER_SIZE else length content mod BUFFER_SIZE))"
  using assms
proof (induction content arbitrary: outs b rule: length_induct)
  case (1 content)
  show ?case
  proof (cases "content = []")
    case True
    then show ?thesis by (simp add: stream_loop_Nil BUFFER_SIZE_def)
  next
    case False
    let ?rest = "drop BUFFER_SIZE content"
    let ?tr = "snd (stream_loop fs (tl outs) ?rest (b + length (take BUFFER_SIZE content)))"
    have "length ?rest < length content"
      using False by (simp add: BUFFER_SIZE_def)
    with 1 have ih: "concat (sends ?tr) = ?rest"
      "length (sends ?tr) = (length ?rest + BUFFER_SIZE - 1) div BUFFER_SIZE"
      "\<forall>c\<in>set (sends ?tr). c \<noteq> [] \<and> length c \<le> BUFFER_SIZE"
      "?rest \<noteq> [] \<longrightarrow> length (last (sends ?tr))
           = (if length ?rest mod BUFFER_SIZE = 0 then BUFFER_SIZE else length ?rest mod BUFFER_SIZE)"
      using tl_outs by blast+
    have s: "sends (snd (stream_loop fs outs content b)) = take BUFFER_SIZE content # sends ?tr"
      using False 1 by (simp add: stream_loop_step)
    have c1: "concat (sends (snd (stream_loop fs outs content b))) = content"
      using ih(1) by (simp add: s)
    have c2: "length (sends (snd (stream_loop fs outs content b))) = (length content + BUFFER_SIZE - 1) div BUFFER_SIZE"
    proof -
      have pos: "0 < length content" using False by simp
      have "length (sends (snd (stream_loop fs outs content b))) = Suc (length (sends ?tr))"
        by (simp only: s length_Cons)
      also have "\<dots> = Suc ((length ?rest + BUFFER_SIZE - 1) div BUFFER_SIZE)"
        by (simp only: ih(2))
      also have "\<dots> = Suc ((length content - BUFFER_SIZE + BUFFER_SIZE - 1) div BUFFER_SIZE)"
        by (simp only: length_drop)
      also have "\<dots> = (length content + BUFFER_SIZE - 1) div BUFFER_SIZE"
        by (rule ceil_div_step[OF BUFFER_SIZE_pos pos])
      finally show ?thesis .
    qed
    have ne: "\<forall>c\<in>set (sends ?tr). c \<noteq> []"
      using ih(3) by blast
    have c3: "\<forall>c\<in>set (sends (snd (stream_loop fs outs content b))). c \<noteq> [] \<and> length c \<le> BUFFER_SIZE"
    proof
      fix c assume "c \<in> set (sends (snd (stream_loop fs outs content b)))"
      then consider "c = take BUFFER_SIZE content" | "c \<in> set (sends ?tr)"
        unfolding s by (auto dest: set_ConsD)
      then show "c \<noteq> [] \<and> length c \<le> BUFFER_SIZE"
      proof cases
        case 1
        have t1: "take BUFFER_SIZE content \<noteq> []"
          using False BUFFER_SIZE_pos by (cases content) (auto simp: take_Cons')
        have t2: "length (take BUFFER_SIZE content) \<le> BUFFER_SIZE"
          by (simp only: length_take min.cobounded2)
        show ?thesis unfolding 1 using t1 t2 by (rule conjI)
      next
        case 2
        show ?thesis using ih(3) 2 by (rule bspec)
      qed
    qed
    have c4: "length (last (sends (snd (stream_loop fs outs content b))))
           = (if length content mod BUFFER_SIZE = 0 then BUFFER_SIZE else length content mod BUFFER_SIZE)"
    proof (cases "?rest = []")
      case True
      then have le: "length content \<le> BUFFER_SIZE" by simp
      have "concat (sends ?tr) = []" using ih(1) True by simp
      then have e: "sends ?tr = []" using ne by (cases "sends ?tr") auto
      have t: "take BUFFER_SIZE content = content" using le by simp
      have l: "length (last (sends (snd (stream_loop fs outs content b)))) = length content"
        unfolding s e by (simp add: t del: take_eq_Nil)
      have pos: "0 < length content" using False by simp
      show ?thesis
      proof (cases "length content = BUFFER_SIZE")
        case True
        then show ?thesis using l by simp
      next
        case False
        then have "length content < BUFFER_SIZE" using le by simp
        then have "length content mod BUFFER_SIZE = length content" by simp
        then show ?thesis using l pos by simp
      qed
    next
      case F: False
      then have ne': "sends ?tr \<noteq> []" using ih(1) by auto
      have lt: "BUFFER_SIZE < length content" using F by simp
      have "length ?rest mod BUFFER_SIZE = length content mod BUFFER_SIZE"
        using mod_drop[OF lt] by (simp only: length_drop)
      moreover have "last (sends (snd (stream_loop fs outs content b))) = last (sends ?tr)"
        using ne' by (simp only: s last.simps if_False)
      ultimately show ?thesis using ih(4) F by presburger
    qed
    from c1 c2 c3 c4 show ?thesis by blast
  qed
qed

subsection \<open>Decoding ASCII tokens\<close>

lemma utf8_dec_ascii:
  "utf8_dec bs = Some cs \<Longrightarrow> \<forall>c\<in>set cs. c < 128 \<Longrightarrow> bs = cs"
proof (induction bs arbitrary: cs rule: utf8_dec.induct)
  case 1
  then show ?case by simp
next
  case (2 b bs)
  show ?case
  proof (cases "b < 128")
    case True
    with "2.prems" obtain cs' where c: "utf8_dec bs = Some cs'" "cs = b # cs'"
      by auto
    with "2.IH"(1)[OF True c(1)] "2.prems"(2) show ?thesis
      by simp
  next
    case False
    with "2.prems"(1) obtain c cs' where "cs = c # cs'" "128 \<le> c"
      by (auto simp: is_cont_def split: if_splits list.splits)
    with "2.prems"(2) show ?thesis
      by auto
  qed
qed

lemma utf8_decode_ascii:
  assumes "utf8_decode data = Some (ascii s)" "\<forall>c\<in>set s. (of_char c :: nat) < 128"
  shows "data = s"
proof -
  have "map of_char data = (map of_char s :: nat list)"
    using assms utf8_dec_ascii[of "map of_char data" "ascii s"]
    by (simp add: utf8_decode_def ascii_def)
  then show ?thesis
    using inj_of_char[where ?'a = nat] by (simp add: inj_map_eq_map)
qed


lemma decode_SUCCESS: "utf8_decode data = Some SUCCESS \<Longrightarrow> data = ''SUCCESS''"
  unfolding SUCCESS_def by (rule utf8_decode_ascii) simp_all

subsection \<open>The client, case by case\<close>

lemma send_file_try_cases:
  "send_file_try env filepath =
     (case connect_result env of
        Some e \<Rightarrow> (Inl e, [Connect])
      | None \<Rightarrow>
     (case getsize_result env of
        Inl e \<Rightarrow> (Inl e, [Connect])
      | Inr n \<Rightarrow>
     (case utf8_encode (basename filepath @ SEPARATOR @ decimal n) of
        None \<Rightarrow> (Inl ValueError, [Connect])
      | Some h \<Rightarrow>
     (case header_send env of
        Some e \<Rightarrow> (Inl e, [Connect, Send h])
      | None \<Rightarrow>
     (case sock_recv BUFFER_SIZE (from_server env) of
        (Inl e, chan) \<Rightarrow> (Inl e, [Connect, Send h, Recv BUFFER_SIZE])
      | (Inr data, chan) \<Rightarrow>
     (case utf8_decode data of
        None \<Rightarrow> (Inl ValueError, [Connect, Send h, Recv BUFFER_SIZE])
      | Some response \<Rightarrow>
          if response \<noteq> READY then (Inr False, [Connect, Send h, Recv BUFFER_SIZE])
          else (fst (stream_file env n chan),
                [Connect, Send h, Recv BUFFER_SIZE] @ snd (stream_file env n chan))))))))"
proof (cases "connect_result env")
  case (Some e)
  then show ?thesis
    by (simp add: send_file_try_def connect_def)
next
  case c: None
  show ?thesis
  proof (cases "getsize_result env")
    case (Inl e)
    then show ?thesis
      using c by (simp add: send_file_try_def connect_def getsize_def Let_def)
  next
    case g: (Inr n)
    show ?thesis
    proof (cases "utf8_encode (basename filepath @ SEPARATOR @ decimal n)")
      case None
      then show ?thesis
        using c g
        by (simp add: send_file_try_def connect_def getsize_def Let_def encode_def io_raise_def)
    next
      case h: (Some h)
      show ?thesis
      proof (cases "header_send env")
        case (Some e)
        then show ?thesis
          using c g h
          by (simp add: send_file_try_def connect_def getsize_def Let_def encode_def
              io_return_def send_def)
      next
        case s: None
        obtain r chan where rc: "sock_recv BUFFER_SIZE (from_server env) = (r, chan)"
          by (cases "sock_recv BUFFER_SIZE (from_server env)")
        show ?thesis
        proof (cases r)
          case (Inl e)
          then show ?thesis
            using c g h s rc
            by (simp add: send_file_try_def connect_def getsize_def Let_def encode_def
                io_return_def send_def recv_def)
        next
          case d: (Inr data)
          show ?thesis
          proof (cases "utf8_decode data")
            case None
            then show ?thesis
              using c g h s rc d
              by (simp add: send_file_try_def connect_def getsize_def Let_def encode_def
                  io_return_def io_raise_def send_def recv_def decode_def)
          next
            case (Some response)
            then show ?thesis
              using c g h s rc d
              by (simp add: send_file_try_def connect_def getsize_def Let_def encode_def
                  io_return_def io_raise_def send_def recv_def decode_def)
          qed
        qed
      qed
    qed
  qed
qed




lemma except_clauses_printable:
  "printable filepath \<Longrightarrow> except_clauses filepath r = Inr (r = Inr True)"
  by (auto simp: except_clauses_def split: sum.splits exn.splits)


lemma send_file_fst:
  "fst (send_file env filepath) =
     (case socket_result env of
        Some e \<Rightarrow> Inl e
      | None \<Rightarrow>
          (case close_result env of
             Some e \<Rightarrow> Inl e
           | None \<Rightarrow> except_clauses filepath (fst (send_file_try env filepath))))"
  by (simp add: send_file_def split: prod.splits option.splits)

lemma send_file_snd:
  "snd (send_file env filepath) =
     (case socket_result env of
        Some e \<Rightarrow> []
      | None \<Rightarrow> snd (send_file_try env filepath) @ [Close])"
  by (simp add: send_file_def split: prod.splits option.splits)


lemma printable_append: "printable (a @ b) \<longleftrightarrow> printable a \<and> printable b"
  unfolding printable_def utf8_encode_def
  by (induction a) (auto split: option.splits)

lemma unprintable_name:
  "\<not> printable filename \<Longrightarrow> utf8_encode (filename @ SEPARATOR @ decimal n) = None"
  using printable_append[of filename "SEPARATOR @ decimal n"] by (simp add: printable_def)

lemma sends_append: "sends (xs @ ys) = sends xs @ sends ys"
  by (induction xs rule: sends.induct) auto

subsection \<open>The body-read loop\<close>

lemma recv_loop_done: "\<not> b < fs \<Longrightarrow> recv_loop fs b chan = (Inr b, [])"
  by (subst recv_loop.simps) (simp add: io_return_def)

lemma recv_loop_eof:
  "b < fs \<Longrightarrow> recv_loop fs b [] = (Inr b, [Recv (nat (min (int BUFFER_SIZE) (fs - b)))])"
  by (subst recv_loop.simps) (simp add: io_return_def recv_def Let_def)

lemma recv_loop_raise:
  "b < fs \<Longrightarrow> recv_loop fs b (Raise e # rest) = (Inl e, [Recv (nat (min (int BUFFER_SIZE) (fs - b)))])"
  by (subst recv_loop.simps) (simp add: io_return_def recv_def Let_def)

lemma recv_loop_empty:
  "b < fs \<Longrightarrow> recv_loop fs b (Seg [] # rest) = (Inr b, [Recv (nat (min (int BUFFER_SIZE) (fs - b)))])"
  by (subst recv_loop.simps) (simp add: io_return_def recv_def Let_def)

lemma recv_loop_seg:
  assumes "b < fs" "s \<noteq> []" "0 \<le> b"
  shows "recv_loop fs b (Seg s # rest) =
     (let n = nat (min (int BUFFER_SIZE) (fs - b));
          r = recv_loop fs (b + int (length (take n s)))
                (if drop n s = [] then rest else Seg (drop n s) # rest)
      in (fst r, Recv n # Write (take n s) # Progress (b + int (length (take n s))) fs # snd r))"
proof -
  have n: "0 < nat (min (int BUFFER_SIZE) (fs - b))"
    using assms(1) by (simp add: BUFFER_SIZE_def)
  then have t: "take (nat (min (int BUFFER_SIZE) (fs - b))) s \<noteq> []"
    using assms(2) by (cases s) (auto simp: take_Cons')
  have z: "fs \<noteq> 0" using assms by simp
  show ?thesis
    using t z
    by (subst recv_loop.simps)
       (simp add: assms(1) io_return_def recv_def Let_def file_write_def progress_def
          del: take_eq_Nil)
qed

lemma available_pushback:
  "available (if drop n s = [] then rest else Seg (drop n s) # rest) = drop n s @ available rest"
  by simp

lemma ending_pushback:
  "ending (if drop n s = [] then rest else Seg (drop n s) # rest) = ending rest"
  by simp

lemma writes_Cons3: "writes (Recv n # Write c # Progress x y # tr) = c # writes tr"
  by simp

lemma recv_loop_main:
  assumes "0 \<le> b"
  shows "concat (writes (snd (recv_loop fs b chan))) = take (nat (fs - b)) (available chan) \<and>
         fst (recv_loop fs b chan) =
           (if fs - b \<le> int (length (available chan)) then Inr (if b < fs then fs else b)
            else case ending chan of
                   None \<Rightarrow> Inr (b + int (length (available chan)))
                 | Some e \<Rightarrow> Inl e) \<and>
         within_size fs b (snd (recv_loop fs b chan))"
  using assms
proof (induction "nat (fs - b)" arbitrary: b chan rule: less_induct)
  case less
  show ?case
  proof (cases "b < fs")
    case False
    then show ?thesis
      by (simp add: recv_loop_done)
  next
    case lt: True
    show ?thesis
    proof (cases chan)
      case Nil
      then show ?thesis
        using lt by (simp add: recv_loop_eof)
    next
      case (Cons x rest)
      show ?thesis
      proof (cases x)
        case (Raise e)
        then show ?thesis
          using lt Cons by (simp add: recv_loop_raise)
      next
        case (Seg s)
        show ?thesis
        proof (cases "s = []")
          case True
          then show ?thesis
            using lt Cons Seg by (simp add: recv_loop_empty)
        next
          case ne: False
          define n where "n = nat (min (int BUFFER_SIZE) (fs - b))"
          define chunk where "chunk = take n s"
          define chan' where "chan' = (if drop n s = [] then rest else Seg (drop n s) # rest)"
          define b' where "b' = b + int (length chunk)"
          have npos: "0 < n"
            using lt by (simp add: n_def BUFFER_SIZE_def)
          have nle: "int n \<le> fs - b" "n \<le> BUFFER_SIZE" "int n = min (int BUFFER_SIZE) (fs - b)"
            using lt by (simp_all add: n_def)
          have clen: "0 < length chunk" "length chunk \<le> n"
            using ne npos by (simp_all add: chunk_def)
          have b'le: "b' \<le> fs" "0 \<le> b'" "b < b'"
            using clen nle less.prems by (simp_all add: b'_def)
          have meas: "nat (fs - b') < nat (fs - b)"
            using lt b'le by simp
          have step: "recv_loop fs b chan =
              (fst (recv_loop fs b' chan'),
               Recv n # Write chunk # Progress b' fs # snd (recv_loop fs b' chan'))"
            unfolding Cons Seg
            using recv_loop_seg[OF lt ne less.prems, of rest]
            by (simp add: Let_def n_def chunk_def chan'_def b'_def)
          have av: "available chan = chunk @ available chan'"
            unfolding Cons Seg chan'_def chunk_def available_pushback using ne by simp
          have en: "ending chan = ending chan'"
            unfolding Cons Seg chan'_def ending_pushback using ne by simp
          note ih = less.hyps[OF meas b'le(2), of chan']
          have need: "nat (fs - b) = length chunk + nat (fs - b')"
            using b'le by (simp add: b'_def)
          have c1: "concat (writes (snd (recv_loop fs b chan))) = take (nat (fs - b)) (available chan)"
            unfolding step snd_conv writes_Cons3 av need using ih by simp
          have cond: "(fs - b \<le> int (length (available chan))) = (fs - b' \<le> int (length (available chan')))"
            unfolding av by (auto simp: b'_def)
          have len: "b + int (length (available chan)) = b' + int (length (available chan'))"
            unfolding av by (simp add: b'_def)
          have c2: "fst (recv_loop fs b chan) =
             (if fs - b \<le> int (length (available chan)) then Inr (if b < fs then fs else b)
              else case ending chan of
                   None \<Rightarrow> Inr (b + int (length (available chan)))
                 | Some e \<Rightarrow> Inl e)"
            unfolding step fst_conv cond len en using ih lt b'le(1) by auto
          have c3: "within_size fs b (snd (recv_loop fs b chan))"
            unfolding step snd_conv using ih lt nle(3) b'le(1) by (simp add: b'_def)
          from c1 c2 c3 show ?thesis by blast
        qed
      qed
    qed
  qed
qed

subsection \<open>The server, case by case\<close>

lemma file_info_Nil: "file_info db [] = Inl ValueError"
  by (simp add: file_info_def split_def)

lemma receive_file_cases:
  "receive_file env filename filesize chan =
     (case ready_send env of
        Some e \<Rightarrow> (Inl e, [Send ''READY''])
      | None \<Rightarrow>
     (case create_result env of
        Some e \<Rightarrow> (Inl e, [Send ''READY'', OpenWrite filename])
      | None \<Rightarrow>
     (case fst (recv_loop filesize 0 chan) of
        Inl e \<Rightarrow> (Inl e, [Send ''READY'', OpenWrite filename] @ snd (recv_loop filesize 0 chan))
      | Inr n \<Rightarrow>
          ((case confirm_send env of Some e \<Rightarrow> Inl e | None \<Rightarrow> Inr ()),
           [Send ''READY'', OpenWrite filename] @ snd (recv_loop filesize 0 chan)
             @ [Send (if n = filesize then ''SUCCESS'' else ''FAILED'')]))))"
proof (cases "ready_send env")
  case (Some e)
  then show ?thesis
    by (simp add: receive_file_def send_def)
next
  case r: None
  show ?thesis
  proof (cases "create_result env")
    case (Some e)
    then show ?thesis
      using r by (simp add: receive_file_def send_def open_wb_def)
  next
    case c: None
    obtain res tr where l: "recv_loop filesize 0 chan = (res, tr)"
      by (cases "recv_loop filesize 0 chan")
    show ?thesis
    proof (cases res)
      case (Inl e)
      then show ?thesis
        using r c l by (simp add: receive_file_def send_def open_wb_def)
    next
      case (Inr n)
      then show ?thesis
        using r c l
        by (cases "confirm_send env") (simp_all add: receive_file_def send_def open_wb_def)
    qed
  qed
qed

lemma serve_try_cases:
  "serve_try env =
     (case sock_recv BUFFER_SIZE (from_client env) of
        (Inl e, chan) \<Rightarrow> (Inl e, [Recv BUFFER_SIZE])
      | (Inr data, chan) \<Rightarrow>
     (case utf8_decode data of
        None \<Rightarrow> (Inl ValueError, [Recv BUFFER_SIZE])
      | Some received_data \<Rightarrow>
          if received_data = [] then (Inr (), [Recv BUFFER_SIZE, Close])
          else
     (case file_info (unicode env) received_data of
        Inl e \<Rightarrow> (Inl e, [Recv BUFFER_SIZE])
      | Inr (filename, filesize) \<Rightarrow>
          (fst (receive_file env filename filesize chan),
           Recv BUFFER_SIZE # snd (receive_file env filename filesize chan)))))"
proof -
  obtain r chan where rc: "sock_recv BUFFER_SIZE (from_client env) = (r, chan)"
    by (cases "sock_recv BUFFER_SIZE (from_client env)")
  show ?thesis
  proof (cases r)
    case (Inl e)
    then show ?thesis
      using rc by (simp add: serve_try_def recv_def)
  next
    case d: (Inr data)
    show ?thesis
    proof (cases "utf8_decode data")
      case None
      then show ?thesis
        using rc d by (simp add: serve_try_def recv_def decode_def io_raise_def)
    next
      case u: (Some received_data)
      show ?thesis
      proof (cases "received_data = []")
        case True
        then show ?thesis
          using rc d u by (simp add: serve_try_def recv_def decode_def io_return_def)
      next
        case False
        then show ?thesis
          using rc d u
          by (cases "file_info (unicode env) received_data")
             (auto simp: serve_try_def recv_def decode_def io_return_def lift_def)
      qed
    qed
  qed
qed

lemma serve_try_rejected:
  assumes "accepted_header env = None"
  shows "sends (snd (serve_try env)) = [] \<and> writes (snd (serve_try env)) = []
         \<and> output_name (snd (serve_try env)) = None"
  using assms unfolding serve_try_cases accepted_header_def
  by (auto split: prod.splits sum.splits option.splits simp: file_info_Nil)

lemma serve_try_accepted:
  assumes "accepted_header env = Some (filename, filesize, chan)"
  shows "serve_try env = (fst (receive_file env filename filesize chan),
           Recv BUFFER_SIZE # snd (receive_file env filename filesize chan))"
  using assms unfolding serve_try_cases accepted_header_def
  by (auto split: prod.splits sum.splits option.splits simp: file_info_Nil)

lemma serve_connection_snd: "snd (serve_connection env) = snd (serve_try env) @ [Close]"
  by (auto simp: serve_connection_def split: prod.splits sum.splits)

lemma serve_connection_fst:
  "fst (serve_connection env) = (case fst (serve_try env) of Inl e \<Rightarrow> Some e | Inr u \<Rightarrow> None)"
  by (auto simp: serve_connection_def split: prod.splits sum.splits)

lemma writes_append: "writes (xs @ ys) = writes xs @ writes ys"
  by (induction xs rule: writes.induct) auto

lemma output_name_append:
  "output_name (xs @ ys) = (case output_name xs of None \<Rightarrow> output_name ys | Some n \<Rightarrow> Some n)"
  by (induction xs rule: output_name.induct) auto

lemma body_events_silent:
  assumes "\<forall>ev\<in>set tr. (\<exists>n. ev = Recv n) \<or> (\<exists>c. ev = Write c) \<or> (\<exists>x y. ev = Progress x y)"
  shows "sends tr = [] \<and> output_name tr = None"
  using assms by (induction tr) auto

lemma recv_loop_silent:
  "sends (snd (recv_loop fs b chan)) = [] \<and> output_name (snd (recv_loop fs b chan)) = None"
  by (rule body_events_silent) (auto dest: recv_loop_events)

subsection \<open>Splitting at the separator\<close>

lemma split_acc_nonempty: "split_acc sep acc s \<noteq> []"
  by (induction sep acc s rule: split_acc.induct) auto

lemma split_acc_none:
  "\<not> sublist sep s \<Longrightarrow> split_acc sep acc s = [acc @ s]"
proof (induction s arbitrary: acc)
  case Nil
  then show ?case by simp
next
  case (Cons c cs)
  then have "\<not> prefix sep (c # cs)" "\<not> sublist sep cs"
    by (auto simp: sublist_Cons_right)
  with Cons.IH[of "acc @ [c]"] show ?case
    by simp
qed

lemma split_acc_single:
  assumes "sep \<noteq> []" "split_acc sep acc s = [y]"
  shows "\<not> sublist sep s"
  using assms(2)
proof (induction s arbitrary: acc)
  case Nil
  then show ?case using assms(1) by simp
next
  case (Cons c cs)
  show ?case
  proof (cases "prefix sep (c # cs)")
    case True
    with Cons.prems assms(1) show ?thesis
      by (simp add: split_acc_nonempty)
  next
    case False
    with Cons.prems have "split_acc sep (acc @ [c]) cs = [y]"
      by simp
    from Cons.IH[OF this] False show ?thesis
      by (simp add: sublist_Cons_right)
  qed
qed

lemma split_acc_two_D:
  assumes "sep \<noteq> []" "split_acc sep acc s = [x, y]"
  shows "\<exists>a. x = acc @ a \<and> s = a @ sep @ y \<and> \<not> sublist sep a \<and> \<not> sublist sep y"
  using assms(2)
proof (induction s arbitrary: acc)
  case Nil
  then show ?case by simp
next
  case (Cons c cs)
  show ?case
  proof (cases "prefix sep (c # cs)")
    case True
    with Cons.prems assms(1) have x: "x = acc"
      and r: "split_acc sep [] (drop (length sep) (c # cs)) = [y]"
      by simp_all
    from split_acc_single[OF assms(1) r] have ns: "\<not> sublist sep (drop (length sep) (c # cs))" .
    from split_acc_none[OF ns, of "[]"] r have y: "y = drop (length sep) (c # cs)"
      by simp
    from True have "c # cs = sep @ drop (length sep) (c # cs)"
      by (metis append_eq_conv_conj prefixE)
    with x y ns assms(1) show ?thesis
      by auto
  next
    case False
    with Cons.prems have "split_acc sep (acc @ [c]) cs = [x, y]"
      by simp
    from Cons.IH[OF this] obtain a where a: "x = (acc @ [c]) @ a" "cs = a @ sep @ y"
      "\<not> sublist sep a" "\<not> sublist sep y"
      by blast
    have "\<not> prefix sep (c # a)"
    proof
      assume "prefix sep (c # a)"
      then have "prefix sep ((c # a) @ sep @ y)"
        using prefix_prefix by blast
      with a(2) False show False by simp
    qed
    with a(3) have "\<not> sublist sep (c # a)"
      by (simp add: sublist_Cons_right)
    with a show ?thesis
      by (intro exI[of _ "c # a"]) simp
  qed
qed

text \<open>No proper end of the separator is a beginning of it: it starts with the only
  \<open><\<close> it holds.\<close>

lemma SEPARATOR_unbordered:
  assumes "SEPARATOR = u @ t" "u \<noteq> []" "t \<noteq> []"
  shows "\<not> prefix t (SEPARATOR @ b)"
proof
  assume p: "prefix t (SEPARATOR @ b)"
  have "hd t = 60"
    using p assms(3) by (cases t) (auto simp: SEPARATOR_def ascii_def)
  then have "60 \<in> set t"
    using assms(3) by (cases t) auto
  moreover have "set t \<subseteq> set (tl SEPARATOR)"
  proof -
    from assms(1) have "tl SEPARATOR = tl (u @ t)" by (rule arg_cong)
    also have "\<dots> = tl u @ t" using assms(2) by simp
    finally show ?thesis by simp
  qed
  moreover have "60 \<notin> set (tl SEPARATOR)"
    by (simp add: SEPARATOR_def ascii_def)
  ultimately show False by blast
qed

lemma SEPARATOR_nonempty: "SEPARATOR \<noteq> []"
  by (simp add: SEPARATOR_def ascii_def)

lemma split_acc_two_I:
  assumes "\<not> sublist SEPARATOR a" "\<not> sublist SEPARATOR b"
  shows "split_acc SEPARATOR acc (a @ SEPARATOR @ b) = [acc @ a, b]"
  using assms(1)
proof (induction a arbitrary: acc)
  case Nil
  obtain c cs where s: "SEPARATOR @ b = c # cs"
    using SEPARATOR_nonempty by (cases "SEPARATOR @ b") auto
  have p: "prefix SEPARATOR (c # cs)"
    unfolding s[symmetric] by simp
  have "split_acc SEPARATOR acc (c # cs)
      = acc # split_acc SEPARATOR [] (drop (length SEPARATOR) (c # cs))"
    using SEPARATOR_nonempty p by simp
  then have "split_acc SEPARATOR acc (SEPARATOR @ b) = acc # split_acc SEPARATOR [] b"
    unfolding s[symmetric] by simp
  then show ?case
    using split_acc_none[OF assms(2), of "[]"] by simp
next
  case (Cons c a)
  have np: "\<not> prefix SEPARATOR (c # a @ SEPARATOR @ b)"
  proof
    assume "prefix SEPARATOR (c # a @ SEPARATOR @ b)"
    then have "prefix SEPARATOR ((c # a) @ (SEPARATOR @ b))" by simp
    then consider "prefix SEPARATOR (c # a)"
      | t where "SEPARATOR = (c # a) @ t" "prefix t (SEPARATOR @ b)"
      unfolding prefix_append by blast
    then show False
    proof cases
      case 1
      then show False using Cons.prems by (auto simp: sublist_Cons_right)
    next
      case 2
      show False
      proof (cases "t = []")
        case True
        with 2(1) Cons.prems show False by (auto simp: sublist_Cons_right)
      next
        case False
        from SEPARATOR_unbordered[OF 2(1) _ False] 2(2) show False by simp
      qed
    qed
  qed
  have "\<not> sublist SEPARATOR a"
    using Cons.prems by (simp add: sublist_Cons_right)
  from Cons.IH[OF this, of "acc @ [c]"] np show ?case
    by simp
qed

lemma split_two_iff:
  "split SEPARATOR s = [a, b] \<longleftrightarrow>
     s = a @ SEPARATOR @ b \<and> \<not> sublist SEPARATOR a \<and> \<not> sublist SEPARATOR b"
  using split_acc_two_D[OF SEPARATOR_nonempty, of "[]" s a b] split_acc_two_I[of a b "[]"]
  by (auto simp: split_def)

subsection \<open>Decimal numerals\<close>

lemma to_ascii_digits: "list_all is_digit s \<Longrightarrow> to_ascii db s = s"
  by (induction s) (auto simp: is_digit_def)

lemma no_double_underscore_digits: "list_all is_digit s \<Longrightarrow> no_double_underscore s"
  by (induction s rule: no_double_underscore.induct) (auto simp: is_digit_def)

lemma py_int_digits:
  assumes "nonneg_decimal s"
  shows "py_int db s = Some (digits_value s)"
proof -
  from assms obtain c cs where s: "s = c # cs" and d: "list_all is_digit s"
    by (cases s) (auto simp: nonneg_decimal_def)
  have c: "is_digit c" using d s by simp
  then have c': "\<not> is_space c" "c \<noteq> 43" "c \<noteq> 45" "c \<noteq> 95"
    by (auto simp: is_digit_def is_space_def)
  have a: "to_ascii db s = s" by (rule to_ascii_digits[OF d])
  have b: "dropWhile is_space s = s" using c' s by simp
  have all: "\<forall>x\<in>set s. is_digit x \<or> x = 95"
    using d by (auto simp: list_all_iff)
  have t: "takeWhile (\<lambda>x. is_digit x \<or> x = 95) s = s"
    using all by (simp add: takeWhile_eq_all_conv)
  have r: "dropWhile (\<lambda>x. is_digit x \<or> x = 95) s = []"
    using all by simp
  have l: "last s \<noteq> 95"
  proof -
    have "last s \<in> set s" using s by (metis last_in_set list.distinct(1))
    then have "is_digit (last s)" using d by (simp add: list_all_iff)
    then show ?thesis by (auto simp: is_digit_def)
  qed
  have f: "filter is_digit s = s"
    using d by (simp add: list_all_iff)
  have n: "no_double_underscore s" by (rule no_double_underscore_digits[OF d])
  have h: "s \<noteq> []" "hd s = c" "tl s = cs" using s by simp_all
  show ?thesis
    unfolding py_int_def a Let_def b
    using c' l n h by (simp add: t r f)
qed





subsection \<open>The header\<close>

lemma file_info_iff:
  "file_info db received = Inr (filename, filesize) \<longleftrightarrow>
     (\<exists>name amount. split SEPARATOR received = [name, amount] \<and>
        py_int db amount = Some filesize \<and> filename = basename name)"
  unfolding file_info_def
  by (auto split: list.splits option.splits)

lemma accepted_header_iff:
  "accepted_header env = Some (filename, filesize, chan) \<longleftrightarrow>
     (\<exists>data received. sock_recv BUFFER_SIZE (from_client env) = (Inr data, chan) \<and>
        utf8_decode data = Some received \<and>
        file_info (unicode env) received = Inr (filename, filesize))"
  unfolding accepted_header_def
  by (auto split: prod.splits sum.splits option.splits)

lemma receive_file_first:
  "\<exists>tr. snd (receive_file env filename filesize chan) = Send ''READY'' # tr"
  unfolding receive_file_cases
  by (auto split: option.splits sum.splits)

subsection \<open>Encoding and decoding UTF-8\<close>









subsection \<open>A whole session\<close>






lemma data_only_ending: "data_only chan \<Longrightarrow> ending chan = None"
  by (induction chan rule: ending.induct) (auto simp: data_only_def)




lemma stream_loop_only_sends:
  "recvs (snd (stream_loop fs outs content b)) = [] \<and>
   writes (snd (stream_loop fs outs content b)) = []"
proof -
  have "\<forall>ev\<in>set tr. (\<exists>c. ev = Send c) \<or> (\<exists>x y. ev = Progress x y) \<Longrightarrow>
        recvs tr = [] \<and> writes tr = []" for tr
    by (induction tr) auto
  then show ?thesis
    using stream_loop_events by blast
qed


section \<open>The claims\<close>

text \<open>
  C8 (basename stripping). Whatever name arrives in the header, the only file the server
  opens is named by what follows the last slash of that name: the opened name holds no
  slash, so it names an entry of the working directory, and the name received is that
  name behind a prefix that is empty or ends in a slash.
\<close>

theorem basename_stripping:
  assumes "OpenWrite name \<in> set (snd (serve_connection env))"
  shows "47 \<notin> set name \<and>
         (\<exists>data chan received filename filesize pre.
            sock_recv BUFFER_SIZE (from_client env) = (Inr data, chan) \<and>
            utf8_decode data = Some received \<and>
            split SEPARATOR received = [filename, filesize] \<and>
            name = basename filename \<and>
            filename = pre @ name \<and> (pre = [] \<or> last pre = 47))"
proof -
  from serve_open_name[OF assms] obtain data chan received amount where
    r: "sock_recv BUFFER_SIZE (from_client env) = (Inr data, chan)"
    and d: "utf8_decode data = Some received"
    and f: "file_info (unicode env) received = Inr (name, amount)"
    by blast
  from file_info_name[OF f] obtain filename filesize where
    s: "split SEPARATOR received = [filename, filesize]" and n: "name = basename filename"
    by blast
  from basename_suffix[of filename] obtain pre where
    p: "filename = pre @ basename filename" "pre = [] \<or> last pre = 47"
    by blast
  have "47 \<notin> set name"
    using n basename_no_slash by simp
  with r d s n p show ?thesis
    by blast
qed

theorem basename_stripping_witness:
  "OpenWrite (ascii ''passwd'') \<in> set (snd (serve_connection env_climbing))
   \<and> 47 \<notin> set (ascii ''passwd'')"
proof -
  have h: "OpenWrite (ascii ''passwd'') \<in> set (snd (serve_connection env_climbing))"
    by code_simp
  from basename_stripping[OF h] show ?thesis
    using h by blast
qed

text \<open>
  C10 (sender totality). As stated, for every input path, the claim fails: the clause for
  a missing file prints the path, and a path that holds a lone surrogate makes that
  \<open>print\<close> raise, past the clauses beside it, to the caller. An exception of
  \<open>socket.socket\<close> or of \<open>close\<close> reaches the caller too.
\<close>

theorem send_file_total_counterexample:
  "send_file env_missing (56448 # ascii ''.txt'') = (Inl ValueError, [Connect, Close]) \<and>
   send_file env_no_socket (ascii ''/tmp/a.txt'') = (Inl OSError, []) \<and>
   send_file env_close_fails (ascii ''/tmp/a.txt'')
     = (Inl OSError, [Connect, Send ''a.txt<SEPARATOR>3'', Recv 1024, Close])"
proof -
  have p: "\<not> printable (56448 # ascii ''.txt'')"
    by (simp add: printable_def utf8_encode_def utf8_enc1_def)
  have t: "send_file_try env_missing (56448 # ascii ''.txt'') = (Inl FileNotFoundError, [Connect])"
    by (simp add: send_file_try_cases env_missing_def)
  have 1: "send_file env_missing (56448 # ascii ''.txt'') = (Inl ValueError, [Connect, Close])"
    unfolding send_file_def t using p by (simp add: except_clauses_def env_missing_def)
  have 2: "send_file env_no_socket (ascii ''/tmp/a.txt'') = (Inl OSError, [])"
    by code_simp
  have 3: "send_file env_close_fails (ascii ''/tmp/a.txt'')
      = (Inl OSError, [Connect, Send ''a.txt<SEPARATOR>3'', Recv 1024, Close])"
    by code_simp
  from 1 2 3 show ?thesis
    by simp
qed

text \<open>
  C10, amended. Once its socket is created, whatever the file system and the connection
  do, \<open>send_file\<close> closes the socket on every way out, by return or by exception: it makes
  one \<open>close\<close> call, and makes it last. When \<open>close\<close> does not fail and the console can
  print the path, the caller is handed a Boolean, never an exception: \<open>True\<close> when the body
  of the \<open>try\<close> returned \<open>True\<close>, \<open>False\<close> when it returned \<open>False\<close> or raised.
\<close>

theorem send_file_total:
  assumes "socket_result env = None"
  shows "snd (send_file env filepath) = snd (send_file_try env filepath) @ [Close] \<and>
         Close \<notin> set (snd (send_file_try env filepath)) \<and>
         (close_result env = None \<and> printable filepath \<longrightarrow>
            fst (send_file env filepath) = Inr (fst (send_file_try env filepath) = Inr True))"
  using assms send_file_try_no_close[of env filepath]
  by (simp add: send_file_fst send_file_snd except_clauses_printable)

theorem send_file_total_witness:
  "socket_result env_reset = None \<and> close_result env_reset = None \<and>
   printable (ascii ''/tmp/a.txt'') \<and>
   send_file env_reset (ascii ''/tmp/a.txt'')
     = (Inr False, [Connect, Send ''a.txt<SEPARATOR>3'', Recv 1024, OpenRead, Send ''abc'', Close])"
proof -
  have h: "socket_result env_reset = None"
    by (simp add: env_reset_def)
  have c: "close_result env_reset = None"
    by (simp add: env_reset_def)
  have p: "printable (ascii ''/tmp/a.txt'')"
    by code_simp
  have t: "send_file_try env_reset (ascii ''/tmp/a.txt'')
      = (Inl OSError, [Connect, Send ''a.txt<SEPARATOR>3'', Recv 1024, OpenRead, Send ''abc''])"
    by code_simp
  from send_file_total[OF h, of "ascii ''/tmp/a.txt''"] show ?thesis
    using h c p by (simp add: t prod_eq_iff)
qed

text \<open>
  C6 (chunking determinism). Streaming a file of \<open>n\<close> bytes over a connection whose
  \<open>send\<close> calls succeed, the loop returns with \<open>bytes_sent = n\<close> after
  \<open>ceil(n / BUFFER_SIZE)\<close> payload writes; none of them is empty or longer than
  \<open>BUFFER_SIZE\<close>, together they are the file, and the last one has \<open>n mod BUFFER_SIZE\<close>
  bytes, or \<open>BUFFER_SIZE\<close> when that is zero and \<open>n\<close> is not.
\<close>

theorem chunking_determinism:
  assumes "set outcomes \<subseteq> {None}"
  shows "fst (stream_loop (length content) outcomes content 0) = Inr (length content) \<and>
         length (sends (snd (stream_loop (length content) outcomes content 0)))
           = (length content + BUFFER_SIZE - 1) div BUFFER_SIZE \<and>
         (\<forall>c\<in>set (sends (snd (stream_loop (length content) outcomes content 0))).
            c \<noteq> [] \<and> length c \<le> BUFFER_SIZE) \<and>
         concat (sends (snd (stream_loop (length content) outcomes content 0))) = content \<and>
         (0 < length content \<longrightarrow>
            length (last (sends (snd (stream_loop (length content) outcomes content 0))))
              = (if length content mod BUFFER_SIZE = 0 then BUFFER_SIZE
                 else length content mod BUFFER_SIZE))"
proof (cases "content = []")
  case True
  then show ?thesis
    by (simp add: stream_loop_Nil BUFFER_SIZE_def)
next
  case False
  then have nz: "length content \<noteq> 0"
    by simp
  from stream_loop_result[OF nz assms, of content 0] stream_loop_sends[OF nz assms, of content 0]
  show ?thesis
    by simp
qed

theorem chunking_determinism_witness:
  "set [None, None :: exn option] \<subseteq> {None} \<and>
   fst (stream_loop 1030 [None, None] (replicate 1030 (CHR ''x'')) 0) = Inr 1030 \<and>
   length (sends (snd (stream_loop 1030 [None, None] (replicate 1030 (CHR ''x'')) 0))) = 2 \<and>
   length (last (sends (snd (stream_loop 1030 [None, None] (replicate 1030 (CHR ''x'')) 0)))) = 6"
proof -
  have h: "set [None, None :: exn option] \<subseteq> {None}"
    by simp
  from chunking_determinism[OF h, of "replicate 1030 (CHR ''x'')"] show ?thesis
    by (simp add: BUFFER_SIZE_def)
qed



text \<open>
  C3 (file access before the network). As stated, for \<open>send_file\<close>, the claim fails:
  \<open>send_file\<close> connects before it looks at the file. On a missing file it has connected
  when \<open>getsize\<close> raises; on an unreadable one it has sent the header and read the
  go-ahead when \<open>open\<close> raises.
\<close>

theorem file_access_counterexample:
  "\<not> isfile env_missing \<and>
   send_file env_missing (ascii ''gone.txt'') = (Inr False, [Connect, Close]) \<and>
   \<not> readable env_unreadable \<and>
   send_file env_unreadable (ascii ''secret.txt'') =
     (Inr False, [Connect, Send ''secret.txt<SEPARATOR>3'', Recv 1024, OpenRead, Close])"
  by code_simp

text \<open>
  C3, amended. The check is made by \<open>main\<close>: a path that is no existing regular file, or
  that cannot be read, is turned away with a message before \<open>send_file\<close> is called, so the
  turn makes no call at all on the network or the file.
\<close>

theorem main_rejects_before_network:
  assumes "\<not> (isfile env \<and> readable env)"
  shows "snd (main_iteration env filepath) = [] \<and>
         fst (main_iteration env filepath)
           = Inr (if isfile env then CannotReadMsg else FileNotFoundMsg)"
  using assms by (auto simp: main_iteration_def)

theorem main_rejects_before_network_witness:
  "\<not> (isfile env_missing \<and> readable env_missing) \<and>
   main_iteration env_missing (ascii ''gone.txt'') = (Inr FileNotFoundMsg, [])"
proof -
  have h: "\<not> (isfile env_missing \<and> readable env_missing)"
    by (simp add: env_missing_def)
  from main_rejects_before_network[OF h, of "ascii ''gone.txt''"] show ?thesis
    using h by (simp add: env_missing_def prod_eq_iff)
qed

text \<open>
  C9 (receiver byte-count invariant). From \<open>bytes_received = 0\<close> the body loop keeps
  \<open>bytes_received \<le> filesize\<close>: every read is made with \<open>bytes_received < filesize\<close> and
  asks for \<open>min(BUFFER_SIZE, filesize - bytes_received)\<close> bytes, and no write takes the
  count past \<open>filesize\<close>. What is written is the first \<open>filesize\<close> bytes the stream delivers,
  or all of them when they are fewer; the count returned is the number of bytes written;
  and for a size that is not negative the loop returns \<open>filesize\<close> exactly when the stream
  delivers that many bytes before it fails, reads empty or ends.
\<close>

theorem receiver_byte_count:
  "within_size filesize 0 (snd (recv_loop filesize 0 chan)) \<and>
   concat (writes (snd (recv_loop filesize 0 chan))) = take (nat filesize) (available chan) \<and>
   (\<forall>n. fst (recv_loop filesize 0 chan) = Inr n \<longrightarrow>
        n = int (length (concat (writes (snd (recv_loop filesize 0 chan)))))) \<and>
   (0 \<le> filesize \<longrightarrow>
      (fst (recv_loop filesize 0 chan) = Inr filesize)
        = (filesize \<le> int (length (available chan))))"
proof -
  have z: "(0::int) \<le> 0" by simp
  note m = recv_loop_main[OF z, of filesize chan]
  have w: "concat (writes (snd (recv_loop filesize 0 chan))) = take (nat filesize) (available chan)"
    using m by simp
  have r: "fst (recv_loop filesize 0 chan) =
           (if filesize \<le> int (length (available chan)) then Inr (if 0 < filesize then filesize else 0)
            else case ending chan of
                   None \<Rightarrow> Inr (int (length (available chan)))
                 | Some e \<Rightarrow> Inl e)"
    using m by (simp split: option.splits)
  have c3: "\<forall>n. fst (recv_loop filesize 0 chan) = Inr n \<longrightarrow>
        n = int (length (concat (writes (snd (recv_loop filesize 0 chan)))))"
    unfolding w r by (auto split: option.splits)
  have c4: "0 \<le> filesize \<longrightarrow>
      (fst (recv_loop filesize 0 chan) = Inr filesize)
        = (filesize \<le> int (length (available chan)))"
    unfolding r by (auto split: option.splits)
  from m w c3 c4 show ?thesis by blast
qed

theorem receiver_byte_count_witness:
  "(0::int) \<le> 5 \<and> fst (recv_loop 5 0 two_segments) = Inr 5 \<and>
   concat (writes (snd (recv_loop 5 0 two_segments))) = ''abcde''"
proof -
  have h: "(0::int) \<le> 5" by simp
  from receiver_byte_count[of 5 two_segments] show ?thesis
    by (simp add: two_segments_def)
qed

text \<open>
  C5 (premature disconnect). The header is accepted, the go-ahead is sent and the output
  file is opened; the stream then delivers fewer bytes than announced and reads empty.
  The body loop returns, with the number of bytes delivered, which is below the size
  announced; the server sends \<open>FAILED\<close> after \<open>READY\<close> and closes the connection; the
  output file holds the bytes delivered, and nothing removes it.
\<close>

theorem premature_disconnect:
  assumes "accepted_header env = Some (filename, filesize, chan)"
    and "ready_send env = None" and "create_result env = None"
    and "int (length (available chan)) < filesize" and "ending chan = None"
  shows "fst (recv_loop filesize 0 chan) = Inr (int (length (available chan))) \<and>
         sends (snd (serve_connection env)) = [''READY'', ''FAILED''] \<and>
         output_file (snd (serve_connection env)) = Some (filename, available chan) \<and>
         last (snd (serve_connection env)) = Close"
proof -
  have z: "(0::int) \<le> 0" by simp
  note m = recv_loop_main[OF z, of filesize chan]
  have r: "fst (recv_loop filesize 0 chan) = Inr (int (length (available chan)))"
    using m assms(4,5) by simp
  have w: "concat (writes (snd (recv_loop filesize 0 chan))) = available chan"
    using m assms(4) by simp
  have rf: "snd (receive_file env filename filesize chan) =
      [Send ''READY'', OpenWrite filename] @ snd (recv_loop filesize 0 chan) @ [Send ''FAILED'']"
    unfolding receive_file_cases using assms(2,3,4) r by simp
  have tr: "snd (serve_connection env) =
      Recv BUFFER_SIZE # Send ''READY'' # OpenWrite filename # snd (recv_loop filesize 0 chan)
        @ [Send ''FAILED'', Close]"
    unfolding serve_connection_snd serve_try_accepted[OF assms(1)] snd_conv rf by simp
  have s: "sends (snd (serve_connection env)) = [''READY'', ''FAILED'']"
    unfolding tr using recv_loop_silent[of filesize 0 chan] by (simp add: sends_append)
  have o: "output_file (snd (serve_connection env)) = Some (filename, available chan)"
    unfolding tr output_file_def using w by (simp add: writes_append)
  have l: "last (snd (serve_connection env)) = Close"
    unfolding tr by simp
  from r s o l show ?thesis by blast
qed

theorem premature_disconnect_witness:
  "accepted_header env_cut_short = Some (ascii ''f.bin'', 10, [Seg ''abc'']) \<and>
   int (length (available [Seg ''abc''])) < 10 \<and> ending [Seg ''abc''] = None \<and>
   sends (snd (serve_connection env_cut_short)) = [''READY'', ''FAILED''] \<and>
   output_file (snd (serve_connection env_cut_short)) = Some (ascii ''f.bin'', ''abc'')"
proof -
  have h: "accepted_header env_cut_short = Some (ascii ''f.bin'', 10, [Seg ''abc''])"
    by code_simp
  have e: "ready_send env_cut_short = None" "create_result env_cut_short = None"
    by (simp_all add: env_cut_short_def)
  have a: "int (length (available [Seg ''abc''])) < 10" "ending [Seg ''abc''] = None"
    by simp_all
  from premature_disconnect[OF h e a] show ?thesis
    using h by simp
qed

text \<open>
  C2 (header decoding). As stated the claim fails in both directions. The size field
  \<open>-5\<close> is no non-negative decimal integer, yet \<open>int\<close> converts it: the header is accepted,
  \<open>READY\<close> is sent, and the turn ends with \<open>FAILED\<close>. And a header that holds the separator
  and the size \<open>5\<close> is turned away when its bytes are no UTF-8.
\<close>

theorem header_decoding_counterexample:
  "split SEPARATOR (ascii ''f<SEPARATOR>-5'') = [ascii ''f'', ascii ''-5''] \<and>
   \<not> nonneg_decimal (ascii ''-5'') \<and>
   accepted_header env_negative = Some (ascii ''f'', - 5, []) \<and>
   sends (snd (serve_connection env_negative)) = [''READY'', ''FAILED''] \<and>
   sublist ''<SEPARATOR>'' (CHR 0xFF # ''<SEPARATOR>5'') \<and>
   nonneg_decimal (ascii ''5'') \<and>
   accepted_header env_not_utf8 = None \<and>
   sends (snd (serve_connection env_not_utf8)) = []"
  by code_simp

text \<open>
  C2, amended. The header is accepted exactly when the bytes of the first read decode as
  UTF-8 to a text that holds the separator once, with a size field that \<open>int\<close> converts;
  the server then goes on with the last path component of the name field and the value
  of the size field, and the first thing it sends is \<open>READY\<close>. Otherwise it sends nothing
  and closes the connection. \<open>int\<close> converts every non-negative decimal integer (and
  signed, padded and underscored ones besides).
\<close>

theorem header_decoding:
  "((accepted_header env = Some (filename, filesize, chan)) =
      (\<exists>data received name amount.
         sock_recv BUFFER_SIZE (from_client env) = (Inr data, chan) \<and>
         utf8_decode data = Some received \<and>
         received = name @ SEPARATOR @ amount \<and>
         \<not> sublist SEPARATOR name \<and> \<not> sublist SEPARATOR amount \<and>
         py_int (unicode env) amount = Some filesize \<and>
         filename = basename name)) \<and>
   (accepted_header env = None \<longrightarrow>
      sends (snd (serve_connection env)) = [] \<and> last (snd (serve_connection env)) = Close) \<and>
   (accepted_header env = Some (filename, filesize, chan) \<longrightarrow>
      snd (serve_connection env)
        = Recv BUFFER_SIZE # snd (receive_file env filename filesize chan) @ [Close] \<and>
      hd (sends (snd (serve_connection env))) = ''READY'') \<and>
   (nonneg_decimal digits \<longrightarrow> py_int (unicode env) digits = Some (digits_value digits))"
proof -
  have p1: "(accepted_header env = Some (filename, filesize, chan)) =
      (\<exists>data received name amount.
         sock_recv BUFFER_SIZE (from_client env) = (Inr data, chan) \<and>
         utf8_decode data = Some received \<and>
         received = name @ SEPARATOR @ amount \<and>
         \<not> sublist SEPARATOR name \<and> \<not> sublist SEPARATOR amount \<and>
         py_int (unicode env) amount = Some filesize \<and>
         filename = basename name)"
    unfolding accepted_header_iff file_info_iff split_two_iff by blast
  have p2: "accepted_header env = None \<longrightarrow>
      sends (snd (serve_connection env)) = [] \<and> last (snd (serve_connection env)) = Close"
    using serve_try_rejected[of env] by (simp add: serve_connection_snd sends_append)
  have p3: "accepted_header env = Some (filename, filesize, chan) \<longrightarrow>
      snd (serve_connection env)
        = Recv BUFFER_SIZE # snd (receive_file env filename filesize chan) @ [Close] \<and>
      hd (sends (snd (serve_connection env))) = ''READY''"
  proof
    assume a: "accepted_header env = Some (filename, filesize, chan)"
    obtain tr where tr: "snd (receive_file env filename filesize chan) = Send ''READY'' # tr"
      using receive_file_first by blast
    show "snd (serve_connection env)
        = Recv BUFFER_SIZE # snd (receive_file env filename filesize chan) @ [Close] \<and>
      hd (sends (snd (serve_connection env))) = ''READY''"
      unfolding serve_connection_snd serve_try_accepted[OF a] snd_conv tr by simp
  qed
  have p4: "nonneg_decimal digits \<longrightarrow> py_int (unicode env) digits = Some (digits_value digits)"
    using py_int_digits by blast
  from p1 p2 p3 p4 show ?thesis by blast
qed

theorem header_decoding_witness:
  "accepted_header env_cut_short = Some (ascii ''f.bin'', 10, [Seg ''abc'']) \<and>
   hd (sends (snd (serve_connection env_cut_short))) = ''READY'' \<and>
   accepted_header env_not_utf8 = None \<and>
   sends (snd (serve_connection env_not_utf8)) = [] \<and>
   nonneg_decimal (ascii ''10'') \<and>
   py_int ascii_db (ascii ''10'') = Some 10"
proof -
  have a: "accepted_header env_cut_short = Some (ascii ''f.bin'', 10, [Seg ''abc''])"
    by code_simp
  have n: "accepted_header env_not_utf8 = None"
    by code_simp
  have d: "nonneg_decimal (ascii ''10'')"
    by code_simp
  have v: "digits_value (ascii ''10'') = 10"
    by code_simp
  have u: "unicode env_not_utf8 = ascii_db"
    by (simp add: env_not_utf8_def)
  note t1 = header_decoding[of env_cut_short "ascii ''f.bin''" 10 "[Seg ''abc'']" "ascii ''10''"]
  note t2 = header_decoding[of env_not_utf8 "[]" 0 "[]" "ascii ''10''"]
  from t1 a have r: "hd (sends (snd (serve_connection env_cut_short))) = ''READY''"
    by blast
  from t2 n have s: "sends (snd (serve_connection env_not_utf8)) = []"
    by blast
  from t2 d have "py_int (unicode env_not_utf8) (ascii ''10'') = Some (digits_value (ascii ''10''))"
    by blast
  then have p: "py_int ascii_db (ascii ''10'') = Some 10"
    unfolding u v .
  from a r n s d p show ?thesis
    by blast
qed





end
